theory Spec2Isabelle
  imports Complex_Main "HOL-Library.Multiset"
begin

section \<open>Path encoding: qubit states and Fock states\<close>

text \<open>
  The notebook \<^verbatim>\<open>docs/source/notebooks/Shor Implementation.ipynb\<close> defines two
  helpers, \<^verbatim>\<open>toFockState\<close> and \<^verbatim>\<open>toQubitState\<close>. A qubit state and a
  Fock state are Python lists of integers. A read \<^verbatim>\<open>xs[i]\<close> past the end of a list
  raises \<^verbatim>\<open>IndexError\<close>, a dictionary lookup of a missing key raises
  \<^verbatim>\<open>KeyError\<close>; both are values of the model.
\<close>

datatype py_error = IndexError | KeyError

text \<open>\<^verbatim>\<open>xs[i]\<close> for a literal index \<open>i \<ge> 0\<close>.\<close>

definition list_get :: "'a list \<Rightarrow> nat \<Rightarrow> py_error + 'a" where
  "list_get xs i = (if i < length xs then Inr (xs ! i) else Inl IndexError)"

text \<open>The dictionary \<^verbatim>\<open>pe = {0:[1,0], 1:[0,1]}\<close>.\<close>

definition pe :: "int \<rightharpoonup> int list" where
  "pe = [0 \<mapsto> [1, 0], 1 \<mapsto> [0, 1]]"

definition dict_get :: "('k \<rightharpoonup> 'v) \<Rightarrow> 'k \<Rightarrow> py_error + 'v" where
  "dict_get m k = (case m k of None \<Rightarrow> Inl KeyError | Some v \<Rightarrow> Inr v)"

text \<open>Sequencing of two steps, the first of which may raise.\<close>

definition bind_err :: "py_error + 'a \<Rightarrow> ('a \<Rightarrow> py_error + 'b) \<Rightarrow> py_error + 'b" where
  "bind_err r f = (case r of Inl e \<Rightarrow> Inl e | Inr v \<Rightarrow> f v)"

text \<open>\<^verbatim>\<open>pe[qubitState[i]]\<close>: the list read, then the dictionary lookup.\<close>

definition pe_at :: "int list \<Rightarrow> nat \<Rightarrow> py_error + int list" where
  "pe_at qubitState i = bind_err (list_get qubitState i) (dict_get pe)"

text \<open>
  \<^verbatim>\<open>return [0] + pe[qubitState[0]] + pe[qubitState[2]] + [0, 0]
         + pe[qubitState[1]] + pe[qubitState[3]] + [0]\<close>
  Python evaluates the operands from left to right, so the first failing lookup decides
  the exception.
\<close>

definition toFockState :: "int list \<Rightarrow> py_error + int list" where
  "toFockState qubitState =
     bind_err (pe_at qubitState 0) (\<lambda>p0.
     bind_err (pe_at qubitState 2) (\<lambda>p2.
     bind_err (pe_at qubitState 1) (\<lambda>p1.
     bind_err (pe_at qubitState 3) (\<lambda>p3.
       Inr ([0] @ p0 @ p2 @ [0, 0] @ p1 @ p3 @ [0])))))"

text \<open>The mode layout of \<^verbatim>\<open>toQubitState\<close>.\<close>

definition x1 :: "nat list" where "x1 = [1, 2]"
definition f1 :: "nat list" where "f1 = [3, 4]"
definition x2 :: "nat list" where "x2 = [7, 8]"
definition f2 :: "nat list" where "f2 = [9, 10]"
definition am1 :: "nat list" where "am1 = [0, 5]"
definition am2 :: "nat list" where "am2 = [6, 11]"

text \<open>
  The first loop, \<^verbatim>\<open>for i in am1 + am2: if fockState[i]!=0: return None\<close>.
  The result \<open>Inr False\<close> stands for the early \<^verbatim>\<open>return None\<close>, \<open>Inr True\<close> for
  a loop that ran to its end.
\<close>

fun aux_loop :: "int list \<Rightarrow> nat list \<Rightarrow> py_error + bool" where
  "aux_loop fockState [] = Inr True"
| "aux_loop fockState (i # rest) =
     bind_err (list_get fockState i) (\<lambda>v.
       if v \<noteq> 0 then Inr False else aux_loop fockState rest)"

text \<open>
  The second loop, over \<^verbatim>\<open>[x1, x2, f1, f2]\<close>, with the accumulator \<^verbatim>\<open>L\<close>:
  \<^verbatim>\<open>if fockState[q[0]]+fockState[q[1]] != 1: return None
  else: L.append(fockState[q[1]])\<close>
\<close>

fun qubit_loop :: "int list \<Rightarrow> nat list list \<Rightarrow> int list \<Rightarrow> py_error + int list option" where
  "qubit_loop fockState [] L = Inr (Some L)"
| "qubit_loop fockState (q # rest) L =
     bind_err (list_get q 0) (\<lambda>q0.
     bind_err (list_get fockState q0) (\<lambda>a.
     bind_err (list_get q 1) (\<lambda>q1.
     bind_err (list_get fockState q1) (\<lambda>b.
       if a + b \<noteq> 1 then Inr None
       else qubit_loop fockState rest (L @ [b])))))"

definition toQubitState :: "int list \<Rightarrow> py_error + int list option" where
  "toQubitState fockState =
     bind_err (aux_loop fockState (am1 @ am2)) (\<lambda>ok.
       if \<not> ok then Inr None
       else qubit_loop fockState [x1, x2, f1, f2] [])"

text \<open>A qubit state of the notebook: four entries, each 0 or 1.\<close>

definition is_qubit_state :: "int list \<Rightarrow> bool" where
  "is_qubit_state q = (length q = 4 \<and> list_all (\<lambda>b. b = 0 \<or> b = 1) q)"

text \<open>The two-rail convention on a 12-mode Fock state, as \<^verbatim>\<open>toQubitState\<close> tests it.\<close>

definition aux_occupied :: "int list \<Rightarrow> bool" where
  "aux_occupied f = (f ! 0 \<noteq> 0 \<or> f ! 5 \<noteq> 0 \<or> f ! 6 \<noteq> 0 \<or> f ! 11 \<noteq> 0)"

definition pair_not_single :: "int list \<Rightarrow> bool" where
  "pair_not_single f =
     (f ! 1 + f ! 2 \<noteq> 1 \<or> f ! 7 + f ! 8 \<noteq> 1 \<or> f ! 3 + f ! 4 \<noteq> 1 \<or> f ! 9 + f ! 10 \<noteq> 1)"

section \<open>Mode networks\<close>

text \<open>
  Modelled from the spec: the notebook builds its circuit with \<^verbatim>\<open>pcvl.Circuit(12)\<close> and
  \<^verbatim>\<open>circ.add\<close> and reads \<^verbatim>\<open>circ.U\<close>; the code of these library calls is not among
  the sources. The definitions of this section follow sections 3 and 4.1 of the
  specification. A matrix is a list of rows of complex numbers; complex numbers are the
  exact field, not floating-point values.
\<close>

type_synonym cmatrix = "complex list list"

definition mat_of_fun :: "nat \<Rightarrow> nat \<Rightarrow> (nat \<Rightarrow> nat \<Rightarrow> complex) \<Rightarrow> cmatrix" where
  "mat_of_fun r c f = map (\<lambda>i. map (\<lambda>j. f i j) [0..<c]) [0..<r]"

definition ncols :: "cmatrix \<Rightarrow> nat" where
  "ncols A = (case A of [] \<Rightarrow> 0 | row # _ \<Rightarrow> length row)"

definition wf_mat :: "nat \<Rightarrow> nat \<Rightarrow> cmatrix \<Rightarrow> bool" where
  "wf_mat r c A = (length A = r \<and> list_all (\<lambda>row. length row = c) A)"

definition identity_mat :: "nat \<Rightarrow> cmatrix" where
  "identity_mat M = mat_of_fun M M (\<lambda>i j. if i = j then 1 else 0)"

definition mat_mul :: "cmatrix \<Rightarrow> cmatrix \<Rightarrow> cmatrix" where
  "mat_mul A B =
     mat_of_fun (length A) (ncols B) (\<lambda>i j. \<Sum>k\<leftarrow>[0..<length B]. A ! i ! k * B ! k ! j)"

text \<open>The conjugate transpose.\<close>

definition dagger :: "cmatrix \<Rightarrow> cmatrix" where
  "dagger A = mat_of_fun (ncols A) (length A) (\<lambda>i j. cnj (A ! j ! i))"

text \<open>\<open>U * U\<^sup>\<dagger> = I\<close> for an \<open>M \<times> M\<close> matrix.\<close>

definition is_unitary :: "nat \<Rightarrow> cmatrix \<Rightarrow> bool" where
  "is_unitary M U = (wf_mat M M U \<and> mat_mul U (dagger U) = identity_mat M)"

text \<open>
  Modelled from the spec: the second argument of \<^verbatim>\<open>addComponent(modes, unitary2x2OrPhase)\<close>,
  a 2-by-2 local matrix (beam splitter) or a phase (phase shifter, local matrix
  \<open>[[e\<^sup>i\<^sup>\<phi>]]\<close>), with the arity the specification gives each kind.
\<close>

datatype local_op = Unitary2x2 cmatrix | Phase real

fun local_matrix :: "local_op \<Rightarrow> cmatrix" where
  "local_matrix (Unitary2x2 L) = L"
| "local_matrix (Phase phi) = [[cis phi]]"

fun arity :: "local_op \<Rightarrow> nat" where
  "arity (Unitary2x2 L) = 2"
| "arity (Phase phi) = 1"

text \<open>
  Modelled from the spec: the beam splitter with reflectivity \<open>R\<close> and phase \<open>\<phi>\<close>, local
  matrix \<open>[[\<surd>R, i\<surd>(1-R)], [i\<surd>(1-R)e\<^sup>i\<^sup>\<phi>, \<surd>R e\<^sup>i\<^sup>\<phi>]]\<close>, and the phase shifter.
\<close>

definition beam_splitter :: "real \<Rightarrow> real \<Rightarrow> local_op" where
  "beam_splitter R phi =
     Unitary2x2 [[complex_of_real (sqrt R), \<i> * complex_of_real (sqrt (1 - R))],
                 [\<i> * complex_of_real (sqrt (1 - R)) * cis phi,
                  complex_of_real (sqrt R) * cis phi]]"

definition phase_shifter :: "real \<Rightarrow> local_op" where
  "phase_shifter phi = Phase phi"

text \<open>
  Modelled from the spec: a component is an elementary operation bound to an ordered
  subset of modes; a network is a mode count with an ordered sequence of components.
\<close>

record component =
  modes :: "nat list"
  op :: local_op

record mode_network =
  modeCount :: nat
  components :: "component list"

text \<open>The position of mode \<open>i\<close> in a component's mode list, if it is one of its modes.\<close>

fun mode_index :: "nat list \<Rightarrow> nat \<Rightarrow> nat option" where
  "mode_index [] i = None"
| "mode_index (m # ms) i = (if m = i then Some 0 else map_option Suc (mode_index ms i))"

text \<open>
  Modelled from the spec: the local unitary embedded into the \<open>M \<times> M\<close> identity. Entry
  \<open>(i, j)\<close> is the local entry when both \<open>i\<close> and \<open>j\<close> are modes of the component; all other
  modes pass through as identity.
\<close>

definition embed_local :: "nat \<Rightarrow> nat list \<Rightarrow> cmatrix \<Rightarrow> cmatrix" where
  "embed_local M ms L =
     mat_of_fun M M (\<lambda>i j.
       case mode_index ms i of
         None \<Rightarrow> (if i = j then 1 else 0)
       | Some a \<Rightarrow> (case mode_index ms j of None \<Rightarrow> 0 | Some b \<Rightarrow> L ! a ! b))"

definition component_unitary :: "nat \<Rightarrow> component \<Rightarrow> cmatrix" where
  "component_unitary M c = embed_local M (modes c) (local_matrix (op c))"

text \<open>
  Modelled from the spec: \<^verbatim>\<open>unitary()\<close>, the ordered matrix product of the
  per-component unitaries, in insertion order, each later component multiplied on the
  right of the product of the earlier ones.
\<close>

definition unitary :: "mode_network \<Rightarrow> cmatrix" where
  "unitary net =
     foldl (\<lambda>U c. mat_mul U (component_unitary (modeCount net) c))
       (identity_mat (modeCount net)) (components net)"

text \<open>
  Modelled from the spec: the data model of section 3 binds a component to an ordered
  subset of the modes, one mode for a phase shifter and two for a beam splitter. A list of
  mode indices does not express this by its type, so it is a predicate: as many modes as
  the arity of the operation, and no mode twice.
\<close>

definition wf_component :: "component \<Rightarrow> bool" where
  "wf_component c = (length (modes c) = arity (op c) \<and> distinct (modes c))"

definition wf_network :: "mode_network \<Rightarrow> bool" where
  "wf_network net = list_all wf_component (components net)"

text \<open>
  Modelled from the spec: a valid network. Every mode index of every component lies in
  \<open>[0, M)\<close>, and every component's local matrix is unitary.
\<close>

definition valid_component :: "nat \<Rightarrow> component \<Rightarrow> bool" where
  "valid_component M c =
     (list_all (\<lambda>m. m < M) (modes c) \<and>
      is_unitary (arity (op c)) (local_matrix (op c)))"

definition valid_network :: "mode_network \<Rightarrow> bool" where
  "valid_network net = list_all (valid_component (modeCount net)) (components net)"

text \<open>Orthonormality of the rows of an \<open>M \<times> M\<close> matrix, entry by entry.\<close>

definition rows_orthonormal :: "nat \<Rightarrow> cmatrix \<Rightarrow> bool" where
  "rows_orthonormal M U =
     (\<forall>i<M. \<forall>j<M. (\<Sum>k<M. U ! i ! k * cnj (U ! j ! k)) = (if i = j then 1 else 0))"

section \<open>Permanents\<close>

text \<open>
  Modelled from the spec: the permanent of a square matrix, "the sum over all
  permutations of the product of one matrix entry per row/column" (glossary). The
  notebook leaves this computation to the simulation library, whose code is not among the
  sources. \<open>permutations xs\<close> lists every arrangement of \<open>xs\<close>, built by inserting the
  head at every position of every arrangement of the tail.
\<close>

fun interleave :: "'a \<Rightarrow> 'a list \<Rightarrow> 'a list list" where
  "interleave x [] = [[x]]"
| "interleave x (y # ys) = (x # y # ys) # map ((#) y) (interleave x ys)"

fun permutations :: "'a list \<Rightarrow> 'a list list" where
  "permutations [] = [[]]"
| "permutations (x # xs) = concat (map (interleave x) (permutations xs))"

definition permanent :: "cmatrix \<Rightarrow> complex" where
  "permanent A =
     (\<Sum>p\<leftarrow>permutations [0..<length A]. \<Prod>i\<leftarrow>[0..<length A]. A ! i ! (p ! i))"

text \<open>
  Modelled from the spec: Ryser's inclusion-exclusion formula, which the specification
  recommends in place of the sum over permutations:
  \<open>(-1)\<^sup>n \<Sum>\<^bsub>S \<subseteq> {0..<n}\<^esub> (-1)\<^bsup>|S|\<^esup> \<Prod>\<^bsub>i<n\<^esub> \<Sum>\<^bsub>j\<in>S\<^esub> A\<^bsub>ij\<^esub>\<close>.
\<close>

definition permanent_ryser :: "cmatrix \<Rightarrow> complex" where
  "permanent_ryser A =
     (- 1) ^ length A *
     (\<Sum>S\<leftarrow>subseqs [0..<length A].
        (- 1) ^ length S * (\<Prod>i\<leftarrow>[0..<length A]. \<Sum>j\<leftarrow>S. A ! i ! j))"

definition square_mat :: "nat \<Rightarrow> cmatrix \<Rightarrow> bool" where
  "square_mat n A = wf_mat n n A"

text \<open>The product of one entry per row, the column of row \<open>i\<close> being \<open>c ! i\<close>.\<close>

definition weight :: "cmatrix \<Rightarrow> nat list \<Rightarrow> complex" where
  "weight A c = (\<Prod>i\<leftarrow>[0..<length A]. A ! i ! (c ! i))"

section \<open>Lemmas about the path encoding\<close>

lemma length4E:
  assumes "length xs = 4"
  obtains a b c d where "xs = [a, b, c, d]"
  using assms by (auto simp: length_Suc_conv numeral_eq_Suc)

lemma length12E:
  assumes "length xs = 12"
  obtains a0 a1 a2 a3 a4 a5 a6 a7 a8 a9 a10 a11
  where "xs = [a0, a1, a2, a3, a4, a5, a6, a7, a8, a9, a10, a11]"
proof -
  from assms obtain a0 a1 a2 a3 ys where xs: "xs = a0 # a1 # a2 # a3 # ys" and "length ys = 8"
    by (auto simp: length_Suc_conv numeral_eq_Suc)
  then obtain a4 a5 a6 a7 zs where ys: "ys = a4 # a5 # a6 # a7 # zs" and zs: "length zs = 4"
    by (auto simp: length_Suc_conv numeral_eq_Suc)
  from zs obtain a8 a9 a10 a11 where "zs = [a8, a9, a10, a11]"
    by (rule length4E)
  with xs ys show ?thesis using that by simp
qed

lemma pe_at_bit:
  "i < length q \<Longrightarrow> q ! i = 0 \<Longrightarrow> pe_at q i = Inr [1, 0]"
  "i < length q \<Longrightarrow> q ! i = 1 \<Longrightarrow> pe_at q i = Inr [0, 1]"
  by (simp_all add: pe_at_def bind_err_def list_get_def dict_get_def pe_def)

lemma pe_at_other:
  "i < length q \<Longrightarrow> q ! i \<noteq> 0 \<Longrightarrow> q ! i \<noteq> 1 \<Longrightarrow> pe_at q i = Inl KeyError"
  by (simp add: pe_at_def bind_err_def list_get_def dict_get_def pe_def)

lemma toQubitState_12:
  "toQubitState [a0, a1, a2, a3, a4, a5, a6, a7, a8, a9, a10, a11] =
     Inr (if a0 \<noteq> 0 \<or> a5 \<noteq> 0 \<or> a6 \<noteq> 0 \<or> a11 \<noteq> 0 then None
          else if a1 + a2 \<noteq> 1 \<or> a7 + a8 \<noteq> 1 \<or> a3 + a4 \<noteq> 1 \<or> a9 + a10 \<noteq> 1 then None
          else Some [a2, a8, a4, a10])"
  by (simp add: toQubitState_def am1_def am2_def x1_def x2_def f1_def f2_def
      bind_err_def list_get_def)

lemma toFockState_4:
  "toFockState [a, b, c, d] =
     (if (a = 0 \<or> a = 1) \<and> (b = 0 \<or> b = 1) \<and> (c = 0 \<or> c = 1) \<and> (d = 0 \<or> d = 1)
      then Inr [0, 1 - a, a, 1 - c, c, 0, 0, 1 - b, b, 1 - d, d, 0]
      else Inl KeyError)"
  by (auto simp: toFockState_def pe_at_def bind_err_def list_get_def dict_get_def pe_def)


lemma toFockState_4_more:
  "toFockState (a # b # c # d # rest) = toFockState [a, b, c, d]"
  by (simp add: toFockState_def pe_at_def list_get_def)

lemma toFockState_4_shape:
  "if list_all (\<lambda>b. b = 0 \<or> b = 1) [a, b, c, d]
   then \<exists>f. toFockState [a, b, c, d] = Inr f \<and> length f = 12 \<and>
            list_all (\<lambda>n. n = 0 \<or> n = 1) f \<and> sum_list f = 4 \<and>
            f ! 0 = 0 \<and> f ! 5 = 0 \<and> f ! 6 = 0 \<and> f ! 11 = 0
   else toFockState [a, b, c, d] = Inl KeyError"
  unfolding toFockState_4 by auto

lemma length_ge4E:
  assumes "4 \<le> length xs"
  obtains a b c d rest where "xs = a # b # c # d # rest"
  using assms by (auto simp: numeral_eq_Suc Suc_le_length_iff)

lemma toFockState_short:
  assumes "length q < 4"
  shows "toFockState q = Inl IndexError \<or> toFockState q = Inl KeyError"
proof -
  have one: "pe_at q i = Inl IndexError \<or> pe_at q i = Inl KeyError \<or> (\<exists>p. pe_at q i = Inr p)"
    for i
    by (cases "pe_at q i") (auto intro: py_error.exhaust)
  have last: "pe_at q 3 = Inl IndexError"
    using assms by (simp add: pe_at_def bind_err_def list_get_def)
  show ?thesis
    using one [of 0] one [of 2] one [of 1] last
    by (auto simp: toFockState_def bind_err_def)
qed

section \<open>Claims about the path encoding\<close>

text \<open>
  Claim C7. On a 12-mode Fock state, \<^verbatim>\<open>toQubitState\<close> raises nothing and returns
  \<^verbatim>\<open>None\<close> exactly when the state violates the two-rail convention: one of the
  auxiliary modes 0, 5, 6, 11 is occupied, or one of the mode pairs (1,2), (7,8), (3,4),
  (9,10) does not hold exactly one photon in total. Otherwise it returns the list of the
  occupations of modes 2, 8, 4 and 10, which is a 4-qubit state when no occupation of the
  input is negative.
\<close>

theorem toQubitState_None_iff_not_two_rail:
  assumes "length f = 12"
  shows "(toQubitState f = Inr None \<longleftrightarrow> aux_occupied f \<or> pair_not_single f) \<and>
         (\<not> (aux_occupied f \<or> pair_not_single f) \<longrightarrow>
            toQubitState f = Inr (Some [f ! 2, f ! 8, f ! 4, f ! 10])) \<and>
         (\<not> (aux_occupied f \<or> pair_not_single f) \<and> list_all (\<lambda>n. 0 \<le> n) f \<longrightarrow>
            is_qubit_state [f ! 2, f ! 8, f ! 4, f ! 10])"
proof -
  from assms obtain a0 a1 a2 a3 a4 a5 a6 a7 a8 a9 a10 a11
    where f: "f = [a0, a1, a2, a3, a4, a5, a6, a7, a8, a9, a10, a11]"
    by (rule length12E)
  have none: "toQubitState f = Inr None \<longleftrightarrow> aux_occupied f \<or> pair_not_single f"
    unfolding f toQubitState_12 by (simp add: aux_occupied_def pair_not_single_def)
  have some: "\<not> (aux_occupied f \<or> pair_not_single f) \<longrightarrow>
      toQubitState f = Inr (Some [f ! 2, f ! 8, f ! 4, f ! 10])"
    unfolding f toQubitState_12 by (simp add: aux_occupied_def pair_not_single_def)
  have bits: "\<not> (aux_occupied f \<or> pair_not_single f) \<and> list_all (\<lambda>n. 0 \<le> n) f \<longrightarrow>
      is_qubit_state [f ! 2, f ! 8, f ! 4, f ! 10]"
    unfolding f by (auto simp: aux_occupied_def pair_not_single_def is_qubit_state_def)
  from none some bits show ?thesis by blast
qed

theorem toQubitState_None_iff_not_two_rail_witness:
  "toQubitState [0, 1, 0, 1, 0, 0, 0, 1, 0, 0, 1, 0] = Inr (Some [0, 0, 0, 1]) \<and>
   is_qubit_state [0, 0, 0, 1] \<and>
   toQubitState [1, 1, 0, 1, 0, 0, 0, 1, 0, 0, 1, 0] = Inr None \<and>
   toQubitState [0, 1, 1, 1, 0, 0, 0, 1, 0, 0, 1, 0] = Inr None"
  using toQubitState_None_iff_not_two_rail [of "[0, 1, 0, 1, 0, 0, 0, 1, 0, 0, 1, 0]"]
    toQubitState_None_iff_not_two_rail [of "[1, 1, 0, 1, 0, 0, 0, 1, 0, 0, 1, 0]"]
    toQubitState_None_iff_not_two_rail [of "[0, 1, 1, 1, 0, 0, 0, 1, 0, 0, 1, 0]"]
  by (simp add: aux_occupied_def pair_not_single_def)

text \<open>
  Claim C8. The two mappings are inverse to each other on their domains: for a qubit
  state \<open>q\<close> (four entries, each 0 or 1), \<^verbatim>\<open>toFockState\<close> returns a Fock state
  that \<^verbatim>\<open>toQubitState\<close> maps back to \<open>q\<close>; and for a 12-mode Fock state \<open>f\<close> with
  non-negative occupations that \<^verbatim>\<open>toQubitState\<close> maps to a qubit state \<open>q'\<close>,
  \<^verbatim>\<open>toFockState\<close> maps \<open>q'\<close> back to \<open>f\<close>.
\<close>

theorem path_encoding_roundtrip:
  "(is_qubit_state q \<longrightarrow>
      (\<exists>f. toFockState q = Inr f \<and> toQubitState f = Inr (Some q))) \<and>
   (length f = 12 \<and> list_all (\<lambda>n. 0 \<le> n) f \<and> toQubitState f = Inr (Some q') \<longrightarrow>
      toFockState q' = Inr f)"
proof (intro conjI impI)
  assume "is_qubit_state q"
  then have len: "length q = 4" and bits: "list_all (\<lambda>b. b = 0 \<or> b = 1) q"
    by (simp_all add: is_qubit_state_def)
  from len obtain a b c d where q: "q = [a, b, c, d]"
    by (rule length4E)
  from bits show "\<exists>f. toFockState q = Inr f \<and> toQubitState f = Inr (Some q)"
    unfolding q toFockState_4 by (auto simp: toQubitState_12)
next
  assume h: "length f = 12 \<and> list_all (\<lambda>n. 0 \<le> n) f \<and> toQubitState f = Inr (Some q')"
  then obtain a0 a1 a2 a3 a4 a5 a6 a7 a8 a9 a10 a11
    where f: "f = [a0, a1, a2, a3, a4, a5, a6, a7, a8, a9, a10, a11]"
    by (auto elim: length12E)
  from h show "toFockState q' = Inr f"
    unfolding f toQubitState_12
    by (auto simp: toFockState_4 split: if_splits)
qed

theorem path_encoding_roundtrip_witness:
  "toFockState [0, 0, 0, 1] = Inr [0, 1, 0, 1, 0, 0, 0, 1, 0, 0, 1, 0] \<and>
   toQubitState [0, 1, 0, 1, 0, 0, 0, 1, 0, 0, 1, 0] = Inr (Some [0, 0, 0, 1])"
  using path_encoding_roundtrip
    [of "[0, 0, 0, 1]" "[0, 1, 0, 1, 0, 0, 0, 1, 0, 0, 1, 0]" "[0, 0, 0, 1]"]
  by (simp add: is_qubit_state_def toQubitState_12)

text \<open>
  Claim C10, as amended. \<^verbatim>\<open>toFockState\<close> reads the entries 0 to 3 of its input and
  nothing else. For an input with at least four entries (every qubit state is one): when
  the first four entries are each 0 or 1, it returns a list of exactly 12 occupation
  numbers, each 0 or 1, with total photon count 4 and with the auxiliary modes 0, 5, 6 and
  11 empty; when one of the first four entries is neither 0 nor 1, it raises
  \<^verbatim>\<open>KeyError\<close> and returns no Fock state. An input with fewer than four entries
  raises \<^verbatim>\<open>IndexError\<close> or \<^verbatim>\<open>KeyError\<close> and returns no Fock state.
\<close>

theorem toFockState_shape:
  "(4 \<le> length q \<longrightarrow>
      (if list_all (\<lambda>b. b = 0 \<or> b = 1) (take 4 q)
       then \<exists>f. toFockState q = Inr f \<and> length f = 12 \<and>
                list_all (\<lambda>n. n = 0 \<or> n = 1) f \<and> sum_list f = 4 \<and>
                f ! 0 = 0 \<and> f ! 5 = 0 \<and> f ! 6 = 0 \<and> f ! 11 = 0
       else toFockState q = Inl KeyError)) \<and>
   (length q < 4 \<longrightarrow> toFockState q = Inl IndexError \<or> toFockState q = Inl KeyError)"
proof (intro conjI impI)
  assume "4 \<le> length q"
  then obtain a b c d rest where q: "q = a # b # c # d # rest"
    by (rule length_ge4E)
  show "if list_all (\<lambda>b. b = 0 \<or> b = 1) (take 4 q)
       then \<exists>f. toFockState q = Inr f \<and> length f = 12 \<and>
                list_all (\<lambda>n. n = 0 \<or> n = 1) f \<and> sum_list f = 4 \<and>
                f ! 0 = 0 \<and> f ! 5 = 0 \<and> f ! 6 = 0 \<and> f ! 11 = 0
       else toFockState q = Inl KeyError"
  proof -
    have t: "take 4 q = [a, b, c, d]"
      by (simp add: q)
    have f: "toFockState q = toFockState [a, b, c, d]"
      unfolding q by (rule toFockState_4_more)
    show ?thesis
      unfolding t f by (rule toFockState_4_shape)
  qed
next
  assume "length q < 4"
  then show "toFockState q = Inl IndexError \<or> toFockState q = Inl KeyError"
    by (rule toFockState_short)
qed

theorem toFockState_shape_witness:
  "(\<exists>f. toFockState [1, 0, 1, 1] = Inr f \<and> length f = 12 \<and>
        list_all (\<lambda>n. n = 0 \<or> n = 1) f \<and> sum_list f = 4 \<and>
        f ! 0 = 0 \<and> f ! 5 = 0 \<and> f ! 6 = 0 \<and> f ! 11 = 0) \<and>
   toFockState [0, 2, 0, 1] = Inl KeyError \<and>
   (\<exists>f. toFockState [0, 0, 0, 0, 2] = Inr f \<and> length f = 12 \<and>
        list_all (\<lambda>n. n = 0 \<or> n = 1) f \<and> sum_list f = 4 \<and>
        f ! 0 = 0 \<and> f ! 5 = 0 \<and> f ! 6 = 0 \<and> f ! 11 = 0) \<and>
   (toFockState [0, 5] = Inl IndexError \<or> toFockState [0, 5] = Inl KeyError)"
proof -
  have l1: "4 \<le> length [1, 0, 1, 1 :: int]" and l2: "4 \<le> length [0, 2, 0, 1 :: int]"
    and l3: "4 \<le> length [0, 0, 0, 0, 2 :: int]" and l4: "length [0, 5 :: int] < 4"
    by simp_all
  have a1: "list_all (\<lambda>b. b = 0 \<or> b = 1) (take 4 [1, 0, 1, 1 :: int])"
    and a2: "\<not> list_all (\<lambda>b. b = 0 \<or> b = 1) (take 4 [0, 2, 0, 1 :: int])"
    and a3: "list_all (\<lambda>b. b = 0 \<or> b = 1) (take 4 [0, 0, 0, 0, 2 :: int])"
    by simp_all
  from toFockState_shape [of "[1, 0, 1, 1]", THEN conjunct1, THEN mp, OF l1]
  have r1: "\<exists>f. toFockState [1, 0, 1, 1] = Inr f \<and> length f = 12 \<and>
        list_all (\<lambda>n. n = 0 \<or> n = 1) f \<and> sum_list f = 4 \<and>
        f ! 0 = 0 \<and> f ! 5 = 0 \<and> f ! 6 = 0 \<and> f ! 11 = 0"
    by (simp only: a1 if_True)
  from toFockState_shape [of "[0, 2, 0, 1]", THEN conjunct1, THEN mp, OF l2]
  have r2: "toFockState [0, 2, 0, 1] = Inl KeyError"
    by (simp only: a2 if_False)
  from toFockState_shape [of "[0, 0, 0, 0, 2]", THEN conjunct1, THEN mp, OF l3]
  have r3: "\<exists>f. toFockState [0, 0, 0, 0, 2] = Inr f \<and> length f = 12 \<and>
        list_all (\<lambda>n. n = 0 \<or> n = 1) f \<and> sum_list f = 4 \<and>
        f ! 0 = 0 \<and> f ! 5 = 0 \<and> f ! 6 = 0 \<and> f ! 11 = 0"
    by (simp only: a3 if_True)
  have r4: "toFockState [0, 5] = Inl IndexError \<or> toFockState [0, 5] = Inl KeyError"
    by (rule toFockState_shape [of "[0, 5]", THEN conjunct2, THEN mp, OF l4])
  from r1 r2 r3 r4 show ?thesis
    by (intro conjI)
qed

text \<open>
  The claim as stated fails for inputs that are not four entries long: the input
  \<open>[0,0,0,0,2]\<close> contains the entry 2 and \<^verbatim>\<open>toFockState\<close> still returns a Fock state,
  since the fifth entry is never read; and on \<open>[0,5]\<close> it fails with \<^verbatim>\<open>IndexError\<close>
  at \<^verbatim>\<open>qubitState[2]\<close>, not with a dictionary key lookup error.
\<close>

theorem toFockState_unread_entry_counterexample:
  "\<not> list_all (\<lambda>b. b = 0 \<or> b = 1) [0, 0, 0, 0, 2 :: int] \<and>
   toFockState [0, 0, 0, 0, 2] = Inr [0, 1, 0, 1, 0, 0, 0, 1, 0, 1, 0, 0] \<and>
   \<not> list_all (\<lambda>b. b = 0 \<or> b = 1) [0, 5 :: int] \<and>
   toFockState [0, 5] = Inl IndexError"
proof -
  have "toFockState [0, 0, 0, 0, 2] = toFockState [0, 0, 0, 0]"
    by (rule toFockState_4_more)
  then have ret: "toFockState [0, 0, 0, 0, 2] = Inr [0, 1, 0, 1, 0, 0, 0, 1, 0, 1, 0, 0]"
    by (simp add: toFockState_4)
  have err: "toFockState [0, 5] = Inl IndexError"
    by (simp add: toFockState_def pe_at_def bind_err_def list_get_def dict_get_def pe_def)
  from ret err show ?thesis by simp
qed

section \<open>The permanent: Ryser's formula against the sum over permutations\<close>

subsection \<open>The list of permutations\<close>

lemma length_interleave: "length (interleave x zs) = Suc (length zs)"
  by (induction zs) simp_all

lemma length_permutations: "length (permutations xs) = fact (length xs)"
proof (induction xs)
  case Nil
  then show ?case by simp
next
  case (Cons x xs)
  have len: "length zs = length xs" if "zs \<in> set (permutations xs)" for zs
    using that
  proof (induction xs arbitrary: zs)
    case Nil
    then show ?case by simp
  next
    case (Cons y ys)
    then obtain p where "p \<in> set (permutations ys)" "zs \<in> set (interleave y p)"
      by auto
    moreover have "length w = Suc (length p)" if "w \<in> set (interleave y p)" for w
      using that by (induction p arbitrary: w) auto
    ultimately show ?case using Cons.IH by auto
  qed
  have "length (permutations (x # xs)) =
      (\<Sum>zs\<leftarrow>permutations xs. length (interleave x zs))"
    by (simp add: length_concat comp_def)
  also have "\<dots> = (\<Sum>zs\<leftarrow>permutations xs. Suc (length xs))"
    by (intro arg_cong [where f = sum_list] map_cong refl) (simp add: length_interleave len)
  also have "\<dots> = fact (length (x # xs))"
    by (simp add: sum_list_triv Cons.IH)
  finally show ?case .
qed

lemma set_interleave:
  "set (interleave x zs) = {as @ x # bs | as bs. as @ bs = zs}"
proof (induction zs)
  case Nil
  then show ?case by auto
next
  case (Cons y zs)
  show ?case
  proof (intro equalityI subsetI)
    fix ys assume "ys \<in> set (interleave x (y # zs))"
    then consider "ys = x # y # zs" | ys' where "ys = y # ys'" "ys' \<in> set (interleave x zs)"
      by auto
    then show "ys \<in> {as @ x # bs | as bs. as @ bs = y # zs}"
    proof cases
      case 1
      then have "ys = [] @ x # (y # zs)" by simp
      then show ?thesis by blast
    next
      case 2
      with Cons.IH obtain as bs where "ys' = as @ x # bs" "as @ bs = zs" by auto
      with 2 have "ys = (y # as) @ x # bs" "(y # as) @ bs = y # zs" by simp_all
      then show ?thesis by blast
    qed
  next
    fix ys assume "ys \<in> {as @ x # bs | as bs. as @ bs = y # zs}"
    then obtain as bs where ys: "ys = as @ x # bs" and ab: "as @ bs = y # zs" by auto
    show "ys \<in> set (interleave x (y # zs))"
    proof (cases as)
      case Nil
      with ys ab show ?thesis by simp
    next
      case (Cons a as')
      with ab have "a = y" "as' @ bs = zs" by simp_all
      then have "as' @ x # bs \<in> set (interleave x zs)"
        using Cons.IH by auto
      with ys Cons \<open>a = y\<close> show ?thesis by simp
    qed
  qed
qed

lemma set_permutations: "set (permutations xs) = {ys. mset ys = mset xs}"
proof (induction xs)
  case Nil
  then show ?case by simp
next
  case (Cons x xs)
  show ?case
  proof (intro equalityI subsetI)
    fix ys assume "ys \<in> set (permutations (x # xs))"
    then obtain zs where "zs \<in> set (permutations xs)" "ys \<in> set (interleave x zs)"
      by auto
    with Cons.IH obtain as bs where "ys = as @ x # bs" "mset (as @ bs) = mset xs"
      by (auto simp: set_interleave)
    then show "ys \<in> {ys. mset ys = mset (x # xs)}" by simp
  next
    fix ys assume "ys \<in> {ys. mset ys = mset (x # xs)}"
    then have m: "mset ys = add_mset x (mset xs)" by simp
    then have "x \<in> set ys"
      by (metis set_mset_mset union_single_eq_member)
    then obtain as bs where ys: "ys = as @ x # bs"
      by (auto dest: split_list)
    with m have "mset (as @ bs) = mset xs" by simp
    then have "as @ bs \<in> set (permutations xs)" using Cons.IH by simp
    moreover have "ys \<in> set (interleave x (as @ bs))"
      using ys by (auto simp: set_interleave)
    ultimately show "ys \<in> set (permutations (x # xs))" by auto
  qed
qed

lemma interleave_remove1:
  "x \<notin> set zs \<Longrightarrow> ys \<in> set (interleave x zs) \<Longrightarrow> remove1 x ys = zs"
  by (induction zs arbitrary: ys) auto

lemma distinct_interleave: "x \<notin> set zs \<Longrightarrow> distinct (interleave x zs)"
  by (induction zs) (auto simp: distinct_map inj_on_def)

lemma interleave_inj: "interleave x ys = interleave x zs \<Longrightarrow> ys = zs"
  by (cases ys; cases zs) auto

lemma distinct_permutations: "distinct xs \<Longrightarrow> distinct (permutations xs)"
proof (induction xs)
  case Nil
  then show ?case by simp
next
  case (Cons x xs)
  then have dx: "distinct (permutations xs)" and nx: "x \<notin> set xs" by simp_all
  have notin: "x \<notin> set zs" if "zs \<in> set (permutations xs)" for zs
    using that nx by (auto simp: set_permutations dest: mset_eq_setD)
  show ?case
    unfolding permutations.simps
  proof (rule distinct_concat)
    show "distinct (map (interleave x) (permutations xs))"
      using dx by (auto simp: distinct_map inj_on_def dest: interleave_inj)
  next
    fix ys assume "ys \<in> set (map (interleave x) (permutations xs))"
    then show "distinct ys" using notin by (auto simp: distinct_interleave)
  next
    fix ys zs
    assume "ys \<in> set (map (interleave x) (permutations xs))"
      "zs \<in> set (map (interleave x) (permutations xs))" "ys \<noteq> zs"
    then obtain p q where p: "p \<in> set (permutations xs)" "ys = interleave x p"
      and q: "q \<in> set (permutations xs)" "zs = interleave x q" and "p \<noteq> q"
      by auto
    show "set ys \<inter> set zs = {}"
    proof (rule ccontr)
      assume "set ys \<inter> set zs \<noteq> {}"
      then obtain c where "c \<in> set (interleave x p)" "c \<in> set (interleave x q)"
        using p q by auto
      then have "remove1 x c = p" "remove1 x c = q"
        using notin p q by (auto dest: interleave_remove1)
      with \<open>p \<noteq> q\<close> show False by simp
    qed
  qed
qed

lemma set_permutations_upt:
  "set (permutations [0..<n]) = {c. length c = n \<and> set c = {0..<n}}"
proof -
  have "mset c = mset [0..<n] \<longleftrightarrow> length c = n \<and> set c = {0..<n}" for c
  proof
    assume h: "mset c = mset [0..<n]"
    then show "length c = n \<and> set c = {0..<n}"
      using mset_eq_length mset_eq_setD by fastforce
  next
    assume h: "length c = n \<and> set c = {0..<n}"
    then have "card (set c) = length c" by simp
    then have "distinct c" by (rule card_distinct)
    with h show "mset c = mset [0..<n]"
      using mset_set_set [of c] by simp
  qed
  then show ?thesis by (simp add: set_permutations)
qed

subsection \<open>Ryser's formula\<close>

lemma prod_list_upt_Suc_shift:
  fixes g :: "nat \<Rightarrow> 'a::comm_monoid_mult"
  shows "(\<Prod>i\<leftarrow>[0..<Suc n]. g i) = g 0 * (\<Prod>i\<leftarrow>[0..<n]. g (Suc i))"
proof -
  have "[0..<Suc n] = 0 # map Suc [0..<n]"
    by (simp add: upt_conv_Cons map_Suc_upt del: upt_Suc)
  then show ?thesis by (simp add: comp_def del: upt_Suc)
qed

lemma sum_list_concat_map:
  fixes xss :: "'a::monoid_add list list"
  shows "sum_list (concat xss) = (\<Sum>xs\<leftarrow>xss. sum_list xs)"
  by (induction xss) simp_all

lemma prod_sum_n_lists:
  fixes f :: "nat \<Rightarrow> 'b \<Rightarrow> 'a::comm_semiring_1"
  shows "(\<Prod>i\<leftarrow>[0..<n]. \<Sum>j\<leftarrow>S. f i j) =
         (\<Sum>c\<leftarrow>List.n_lists n S. \<Prod>i\<leftarrow>[0..<n]. f i (c ! i))"
proof (induction n arbitrary: f)
  case 0
  then show ?case by simp
next
  case (Suc n)
  have "(\<Prod>i\<leftarrow>[0..<Suc n]. \<Sum>j\<leftarrow>S. f i j) =
        (\<Sum>j\<leftarrow>S. f 0 j) * (\<Prod>i\<leftarrow>[0..<n]. \<Sum>j\<leftarrow>S. f (Suc i) j)"
    by (rule prod_list_upt_Suc_shift)
  also have "\<dots> = (\<Sum>j\<leftarrow>S. f 0 j) * (\<Sum>c\<leftarrow>List.n_lists n S. \<Prod>i\<leftarrow>[0..<n]. f (Suc i) (c ! i))"
    by (simp only: Suc.IH [of "\<lambda>i. f (Suc i)"])
  also have "\<dots> = (\<Sum>c\<leftarrow>List.n_lists n S. \<Sum>j\<leftarrow>S. f 0 j * (\<Prod>i\<leftarrow>[0..<n]. f (Suc i) (c ! i)))"
    by (simp add: sum_list_const_mult sum_list_mult_const mult.commute)
  also have "\<dots> = (\<Sum>c\<leftarrow>List.n_lists (Suc n) S. \<Prod>i\<leftarrow>[0..<Suc n]. f i (c ! i))"
    by (simp add: map_concat sum_list_concat_map comp_def prod_list_upt_Suc_shift del: upt_Suc)
  finally show ?case .
qed


lemma finite_lists_into:
  "finite T \<Longrightarrow> finite {c. length c = n \<and> set c \<subseteq> T}"
  using finite_lists_length_eq [of T n] by (simp add: conj_commute)

lemma sum_subseqs_Pow:
  fixes h :: "nat set \<Rightarrow> complex"
  assumes "distinct xs"
  shows "(\<Sum>S\<leftarrow>subseqs xs. h (set S)) = (\<Sum>T\<in>Pow (set xs). h T)"
proof -
  have "(\<Sum>S\<leftarrow>subseqs xs. h (set S)) = sum_list (map h (map set (subseqs xs)))"
    by (simp add: comp_def)
  also have "\<dots> = sum h (set (map set (subseqs xs)))"
    using assms by (intro sum_list_distinct_conv_sum_set distinct_set_subseqs)
  also have "set (map set (subseqs xs)) = Pow (set xs)"
    using subseqs_powset [of xs] by simp
  finally show ?thesis .
qed

lemma ryser_summand:
  assumes "S \<in> set (subseqs [0..<n])" and "length A = n"
  shows "(- 1) ^ length S * (\<Prod>i\<leftarrow>[0..<n]. \<Sum>j\<leftarrow>S. A ! i ! j) =
         (- 1) ^ card (set S) * (\<Sum>c\<in>{c. length c = n \<and> set c \<subseteq> set S}. weight A c)"
proof -
  from assms have d: "distinct S"
    by (auto dest: subseqs_distinctD)
  have "(\<Prod>i\<leftarrow>[0..<n]. \<Sum>j\<leftarrow>S. A ! i ! j) = (\<Sum>c\<leftarrow>List.n_lists n S. weight A c)"
    unfolding weight_def assms(2) by (rule prod_sum_n_lists)
  also have "\<dots> = (\<Sum>c\<in>set (List.n_lists n S). weight A c)"
    using d by (intro sum_list_distinct_conv_sum_set distinct_n_lists)
  finally show ?thesis
    using d by (simp add: set_n_lists distinct_card)
qed

lemma sum_by_range:
  assumes "finite S"
  shows "(\<Sum>c\<in>{c. length c = n \<and> set c \<subseteq> S}. weight A c) =
         (\<Sum>T\<in>Pow S. \<Sum>c\<in>{c. length c = n \<and> set c = T}. weight A c)"
proof -
  let ?L = "{c. length c = n \<and> set c \<subseteq> S}"
  have fin: "finite ?L" using assms by (rule finite_lists_into)
  have "(\<Sum>T\<in>Pow S. \<Sum>c\<in>{c \<in> ?L. set c = T}. weight A c) = sum (weight A) ?L"
    using fin assms by (intro sum.group) auto
  moreover have "{c \<in> ?L. set c = T} = {c. length c = n \<and> set c = T}" if "T \<in> Pow S" for T
    using that by auto
  ultimately show ?thesis by simp
qed

lemma permanent_ryser_eq_surjective_sum:
  "permanent_ryser A = (\<Sum>c\<in>{c. length c = length A \<and> set c = {0..<length A}}. weight A c)"
proof -
  define n where "n = length A"
  define g where "g T = (\<Sum>c\<in>{c. length c = n \<and> set c \<subseteq> T}. weight A c)" for T
  define f where "f T = (\<Sum>c\<in>{c. length c = n \<and> set c = T}. weight A c)" for T
  have "permanent_ryser A =
      (- 1) ^ n * (\<Sum>S\<leftarrow>subseqs [0..<n]. (- 1) ^ card (set S) * g (set S))"
    unfolding permanent_ryser_def n_def [symmetric] g_def
    by (intro arg_cong2 [where f = "(*)"] arg_cong [where f = sum_list] map_cong refl
        ryser_summand) (simp_all add: n_def)
  also have "\<dots> = (- 1) ^ n * (\<Sum>T\<in>Pow {0..<n}. (- 1) ^ card T * g T)"
    using sum_subseqs_Pow [of "[0..<n]" "\<lambda>T. (- 1) ^ card T * g T"] by simp
  also have "\<dots> = (\<Sum>T\<in>Pow {0..<n}. (- 1) ^ (card {0..<n} - card T) * g T)"
  proof -
    have "(- 1) ^ n * ((- 1) ^ card T * g T) = (- 1) ^ (card {0..<n} - card T) * g T"
      if "T \<in> Pow {0..<n}" for T
    proof -
      from that have "card T \<le> card {0..<n}" by (intro card_mono) auto
      then have "card T \<le> n" by simp
      then have "(- 1 :: complex) ^ n * (- 1) ^ card T = (- 1) ^ (n - card T)"
        by (metis neg_one_power_add_eq_neg_one_power_diff power_add)
      then show ?thesis by (simp add: mult.assoc [symmetric])
    qed
    then have "(\<Sum>T\<in>Pow {0..<n}. (- 1) ^ n * ((- 1) ^ card T * g T)) =
        (\<Sum>T\<in>Pow {0..<n}. (- 1) ^ (card {0..<n} - card T) * g T)"
      by (intro sum.cong refl)
    then show ?thesis by (simp only: sum_distrib_left)
  qed
  also have "\<dots> = f {0..<n}"
    by (rule inclusion_exclusion_mobius [symmetric])
      (simp_all add: g_def f_def sum_by_range)
  finally show ?thesis by (simp add: f_def n_def)
qed

lemma permanent_eq_surjective_sum:
  "permanent A = (\<Sum>c\<in>{c. length c = length A \<and> set c = {0..<length A}}. weight A c)"
proof -
  have "permanent A = (\<Sum>p\<leftarrow>permutations [0..<length A]. weight A p)"
    by (simp add: permanent_def weight_def)
  also have "\<dots> = (\<Sum>p\<in>set (permutations [0..<length A]). weight A p)"
    by (intro sum_list_distinct_conv_sum_set distinct_permutations) simp
  finally show ?thesis by (simp add: set_permutations_upt)
qed


text \<open>
  Claim C6. For every complex \<open>n\<close>-by-\<open>n\<close> matrix with \<open>n \<le> 4\<close>, Ryser's
  inclusion-exclusion formula returns the same value as the reference definition, the sum
  over all permutations of the product of one entry per row and column.
\<close>

theorem permanent_ryser_matches_naive:
  assumes "square_mat n A" and "n \<le> 4"
  shows "permanent_ryser A = permanent A"
proof -
  have "permanent_ryser A =
      (\<Sum>c\<in>{c. length c = length A \<and> set c = {0..<length A}}. weight A c)"
    by (rule permanent_ryser_eq_surjective_sum)
  also have "\<dots> = permanent A"
    by (rule permanent_eq_surjective_sum [symmetric])
  finally show ?thesis .
qed

theorem permanent_ryser_matches_naive_witness:
  "permanent_ryser [[1, \<i>], [2, 3]] = 3 + 2 * \<i> \<and> permanent [[1, \<i>], [2, 3]] = 3 + 2 * \<i>"
proof -
  have sq: "square_mat 2 [[1, \<i>], [2, 3]]"
    by (simp add: square_mat_def wf_mat_def)
  have up: "[0..<2] = [0, 1]"
    by (simp add: upt_rec)
  have "permanent [[1, \<i>], [2, 3]] = 3 + 2 * \<i>"
    by (simp add: permanent_def up)
  with permanent_ryser_matches_naive [OF sq] show ?thesis by simp
qed

section \<open>Unitarity of a mode network\<close>

subsection \<open>Matrix algebra\<close>

lemma mat_of_fun_nth [simp]:
  "i < r \<Longrightarrow> j < c \<Longrightarrow> mat_of_fun r c f ! i ! j = f i j"
  by (simp add: mat_of_fun_def)

lemma length_mat_of_fun [simp]: "length (mat_of_fun r c f) = r"
  by (simp add: mat_of_fun_def)

lemma wf_mat_of_fun [simp]: "wf_mat r c (mat_of_fun r c f)"
  by (simp add: wf_mat_def mat_of_fun_def list_all_iff)

lemma ncols_mat_of_fun: "ncols (mat_of_fun r c f) = (if r = 0 then 0 else c)"
  by (cases r) (simp_all add: ncols_def mat_of_fun_def upt_conv_Cons del: upt_Suc)

lemma mat_of_fun_eq_iff:
  "mat_of_fun r c f = mat_of_fun r c g \<longleftrightarrow> (\<forall>i<r. \<forall>j<c. f i j = g i j)"
  by (auto simp: mat_of_fun_def)

lemma ncols_square: "wf_mat M M U \<Longrightarrow> ncols U = M"
  by (cases U) (auto simp: wf_mat_def ncols_def)

lemma sum_list_upt_cong:
  fixes f g :: "nat \<Rightarrow> complex"
  assumes "\<And>k. k < n \<Longrightarrow> f k = g k"
  shows "(\<Sum>k\<leftarrow>[0..<n]. f k) = (\<Sum>k\<leftarrow>[0..<n]. g k)"
  using assms by (intro arg_cong [where f = sum_list] map_cong) auto

lemma sum_list_upt_sum: "(\<Sum>k\<leftarrow>[0..<n]. f k) = (\<Sum>k<n. (f k :: complex))"
  by (simp add: interv_sum_list_conv_sum_set_nat atLeast0LessThan)

lemma mat_mul_dagger:
  assumes "wf_mat M M U"
  shows "mat_mul U (dagger U) = mat_of_fun M M (\<lambda>i j. \<Sum>k<M. U ! i ! k * cnj (U ! j ! k))"
proof -
  from assms have len: "length U = M" and nc: "ncols U = M"
    by (simp_all add: wf_mat_def ncols_square)
  have d: "dagger U = mat_of_fun M M (\<lambda>i j. cnj (U ! j ! i))"
    by (simp add: dagger_def len nc)
  have ncd: "ncols (dagger U) = M"
    unfolding d by (simp add: ncols_mat_of_fun)
  have "mat_mul U (dagger U) =
      mat_of_fun M M (\<lambda>i j. \<Sum>k\<leftarrow>[0..<M]. U ! i ! k * dagger U ! k ! j)"
    unfolding mat_mul_def ncd len by (simp add: d)
  also have "\<dots> = mat_of_fun M M (\<lambda>i j. \<Sum>k<M. U ! i ! k * cnj (U ! j ! k))"
    unfolding mat_of_fun_eq_iff sum_list_upt_sum [symmetric]
    by (intro allI impI sum_list_upt_cong) (simp add: d)
  finally show ?thesis .
qed

lemma is_unitary_iff:
  "is_unitary M U \<longleftrightarrow> wf_mat M M U \<and> rows_orthonormal M U"
proof (cases "wf_mat M M U")
  case True
  then show ?thesis
    by (simp add: is_unitary_def mat_mul_dagger identity_mat_def mat_of_fun_eq_iff
        rows_orthonormal_def)
next
  case False
  then show ?thesis by (simp add: is_unitary_def)
qed

lemma mat_mul_square:
  assumes "wf_mat M M A" "wf_mat M M B"
  shows "mat_mul A B = mat_of_fun M M (\<lambda>i j. \<Sum>k<M. A ! i ! k * B ! k ! j)"
proof -
  from assms have "length A = M" "length B = M" "ncols B = M"
    by (simp_all add: wf_mat_def ncols_square)
  then show ?thesis
    by (simp add: mat_mul_def sum_list_upt_sum)
qed

lemma mat_mul_nth:
  assumes "wf_mat M M A" "wf_mat M M B" "i < M" "j < M"
  shows "mat_mul A B ! i ! j = (\<Sum>k<M. A ! i ! k * B ! k ! j)"
  using assms by (simp add: mat_mul_square)

lemma wf_mat_mul:
  assumes "wf_mat M M A" "wf_mat M M B"
  shows "wf_mat M M (mat_mul A B)"
  using assms by (simp add: mat_mul_square)

lemma rows_orthonormal_mul:
  assumes A: "wf_mat M M A" "rows_orthonormal M A"
    and B: "wf_mat M M B" "rows_orthonormal M B"
  shows "rows_orthonormal M (mat_mul A B)"
  unfolding rows_orthonormal_def
proof (intro allI impI)
  fix i j assume i: "i < M" and j: "j < M"
  let ?K = "{..<M}"
  have "(\<Sum>k<M. mat_mul A B ! i ! k * cnj (mat_mul A B ! j ! k)) =
        (\<Sum>k<M. (\<Sum>p<M. A ! i ! p * B ! p ! k) * cnj (\<Sum>q<M. A ! j ! q * B ! q ! k))"
    using A B i j by (intro sum.cong refl) (simp add: mat_mul_nth)
  also have "\<dots> = (\<Sum>k<M. \<Sum>p<M. \<Sum>q<M.
        (A ! i ! p * cnj (A ! j ! q)) * (B ! p ! k * cnj (B ! q ! k)))"
    by (simp add: sum_product cnj_sum mult_ac)
  also have "\<dots> = (\<Sum>p<M. \<Sum>k<M. \<Sum>q<M.
        (A ! i ! p * cnj (A ! j ! q)) * (B ! p ! k * cnj (B ! q ! k)))"
    by (rule sum.swap)
  also have "\<dots> = (\<Sum>p<M. \<Sum>q<M. \<Sum>k<M.
        (A ! i ! p * cnj (A ! j ! q)) * (B ! p ! k * cnj (B ! q ! k)))"
    by (intro sum.cong refl sum.swap)
  also have "\<dots> = (\<Sum>p<M. \<Sum>q<M.
        (A ! i ! p * cnj (A ! j ! q)) * (\<Sum>k<M. B ! p ! k * cnj (B ! q ! k)))"
    by (simp add: sum_distrib_left)
  also have "\<dots> = (\<Sum>p<M. \<Sum>q<M.
        (A ! i ! p * cnj (A ! j ! q)) * (if p = q then 1 else 0))"
    using B(2) by (intro sum.cong refl) (simp add: rows_orthonormal_def)
  also have "\<dots> = (\<Sum>p<M. \<Sum>q<M. if q = p then A ! i ! p * cnj (A ! j ! q) else 0)"
    by (intro sum.cong refl) auto
  also have "\<dots> = (\<Sum>p<M. A ! i ! p * cnj (A ! j ! p))"
    by (intro sum.cong refl) (simp add: sum.delta)
  also have "\<dots> = (if i = j then 1 else 0)"
    using A(2) i j by (simp add: rows_orthonormal_def)
  finally show "(\<Sum>k<M. mat_mul A B ! i ! k * cnj (mat_mul A B ! j ! k)) =
      (if i = j then 1 else 0)" .
qed

lemma is_unitary_mul:
  "is_unitary M A \<Longrightarrow> is_unitary M B \<Longrightarrow> is_unitary M (mat_mul A B)"
  by (simp add: is_unitary_iff wf_mat_mul rows_orthonormal_mul)

lemma is_unitary_identity: "is_unitary M (identity_mat M)"
proof -
  have "(\<Sum>k<M. (if i = k then 1 else 0) * cnj (if j = k then 1 else 0)) =
      (if i = j then (1::complex) else 0)" if "i < M" "j < M" for i j
  proof -
    have "(\<Sum>k<M. (if i = k then 1 else 0) * cnj (if j = k then 1 else 0)) =
        (\<Sum>k<M. if k = i then (if j = k then (1::complex) else 0) else 0)"
      by (intro sum.cong refl) auto
    also have "\<dots> = (if i = j then 1 else 0)"
      using that by (auto simp: sum.delta)
    finally show ?thesis .
  qed
  then show ?thesis
    by (simp add: is_unitary_iff identity_mat_def rows_orthonormal_def)
qed


subsection \<open>Embedded components\<close>

lemma sum_pick1:
  fixes f :: "nat \<Rightarrow> complex"
  assumes "i < M" and "\<And>k. k < M \<Longrightarrow> k \<noteq> i \<Longrightarrow> f k = 0"
  shows "(\<Sum>k<M. f k) = f i"
proof -
  have "(\<Sum>k<M. f k) = (\<Sum>k\<in>{i}. f k)"
    using assms by (intro sum.mono_neutral_right) auto
  then show ?thesis by simp
qed

lemma sum_pick2:
  fixes f :: "nat \<Rightarrow> complex"
  assumes "m1 < M" "m2 < M" "m1 \<noteq> m2"
    and "\<And>k. k < M \<Longrightarrow> k \<noteq> m1 \<Longrightarrow> k \<noteq> m2 \<Longrightarrow> f k = 0"
  shows "(\<Sum>k<M. f k) = f m1 + f m2"
proof -
  have "(\<Sum>k<M. f k) = (\<Sum>k\<in>{m1, m2}. f k)"
    using assms by (intro sum.mono_neutral_right) auto
  then show ?thesis using assms(3) by simp
qed

lemma unitary_1_entries:
  assumes "is_unitary 1 L"
  shows "L ! 0 ! 0 * cnj (L ! 0 ! 0) = 1"
  using assms by (simp add: is_unitary_iff rows_orthonormal_def)

lemma unitary_2_entries:
  assumes "is_unitary 2 L"
  shows "L ! 0 ! 0 * cnj (L ! 0 ! 0) + L ! 0 ! 1 * cnj (L ! 0 ! 1) = 1"
    and "L ! 0 ! 0 * cnj (L ! 1 ! 0) + L ! 0 ! 1 * cnj (L ! 1 ! 1) = 0"
    and "L ! 1 ! 0 * cnj (L ! 0 ! 0) + L ! 1 ! 1 * cnj (L ! 0 ! 1) = 0"
    and "L ! 1 ! 0 * cnj (L ! 1 ! 0) + L ! 1 ! 1 * cnj (L ! 1 ! 1) = 1"
proof -
  have two: "(\<Sum>k<2. f k) = f 0 + f 1" for f :: "nat \<Rightarrow> complex"
    by (simp add: numeral_2_eq_2)
  from assms have r: "\<And>i j. i < 2 \<Longrightarrow> j < 2 \<Longrightarrow>
      L ! i ! 0 * cnj (L ! j ! 0) + L ! i ! 1 * cnj (L ! j ! 1) = (if i = j then 1 else 0)"
    by (simp add: is_unitary_iff rows_orthonormal_def two)
  show "L ! 0 ! 0 * cnj (L ! 0 ! 0) + L ! 0 ! 1 * cnj (L ! 0 ! 1) = 1"
    using r [of 0 0] by simp
  show "L ! 0 ! 0 * cnj (L ! 1 ! 0) + L ! 0 ! 1 * cnj (L ! 1 ! 1) = 0"
    using r [of 0 1] by simp
  show "L ! 1 ! 0 * cnj (L ! 0 ! 0) + L ! 1 ! 1 * cnj (L ! 0 ! 1) = 0"
    using r [of 1 0] by simp
  show "L ! 1 ! 0 * cnj (L ! 1 ! 0) + L ! 1 ! 1 * cnj (L ! 1 ! 1) = 1"
    using r [of 1 1] by simp
qed

lemma embed_nth1:
  assumes "i < M" "j < M"
  shows "embed_local M [m] L ! i ! j =
     (if i = m then (if j = m then L ! 0 ! 0 else 0) else if i = j then 1 else 0)"
  using assms by (auto simp: embed_local_def)

lemma embed_nth2:
  assumes "i < M" "j < M" "m1 \<noteq> m2"
  shows "embed_local M [m1, m2] L ! i ! j =
     (if i = m1 then (if j = m1 then L ! 0 ! 0 else if j = m2 then L ! 0 ! 1 else 0)
      else if i = m2 then (if j = m1 then L ! 1 ! 0 else if j = m2 then L ! 1 ! 1 else 0)
      else if i = j then 1 else 0)"
  using assms by (auto simp: embed_local_def)

lemma embed_unitary_1:
  assumes m: "m < M" and L: "is_unitary 1 L"
  shows "is_unitary M (embed_local M [m] L)"
proof -
  let ?E = "embed_local M [m] L"
  have "(\<Sum>k<M. ?E ! i ! k * cnj (?E ! j ! k)) = (if i = j then 1 else 0)"
    if i: "i < M" and j: "j < M" for i j
  proof (cases "i = m")
    case True
    have "(\<Sum>k<M. ?E ! i ! k * cnj (?E ! j ! k)) = ?E ! i ! m * cnj (?E ! j ! m)"
      using m i j True by (intro sum_pick1) (simp_all add: embed_nth1)
    then show ?thesis
      using m i j True unitary_1_entries [OF L] by (simp add: embed_nth1)
  next
    case False
    have "(\<Sum>k<M. ?E ! i ! k * cnj (?E ! j ! k)) = ?E ! i ! i * cnj (?E ! j ! i)"
      using i j False by (intro sum_pick1) (simp_all add: embed_nth1)
    then show ?thesis
      using m i j False by (simp add: embed_nth1)
  qed
  then show ?thesis
    by (simp add: is_unitary_iff rows_orthonormal_def embed_local_def)
qed

lemma embed_unitary_2:
  assumes m: "m1 < M" "m2 < M" "m1 \<noteq> m2" and L: "is_unitary 2 L"
  shows "is_unitary M (embed_local M [m1, m2] L)"
proof -
  let ?E = "embed_local M [m1, m2] L"
  note u = unitary_2_entries [OF L]
  have "(\<Sum>k<M. ?E ! i ! k * cnj (?E ! j ! k)) = (if i = j then 1 else 0)"
    if i: "i < M" and j: "j < M" for i j
  proof (cases "i = m1 \<or> i = m2")
    case True
    have "(\<Sum>k<M. ?E ! i ! k * cnj (?E ! j ! k)) =
        ?E ! i ! m1 * cnj (?E ! j ! m1) + ?E ! i ! m2 * cnj (?E ! j ! m2)"
      using m i j True by (intro sum_pick2) (auto simp: embed_nth2)
    then show ?thesis
      using m i j True u by (auto simp: embed_nth2)
  next
    case False
    have "(\<Sum>k<M. ?E ! i ! k * cnj (?E ! j ! k)) = ?E ! i ! i * cnj (?E ! j ! i)"
      using m i j False by (intro sum_pick1) (simp_all add: embed_nth2)
    then show ?thesis
      using m i j False by (simp add: embed_nth2)
  qed
  then show ?thesis
    by (simp add: is_unitary_iff rows_orthonormal_def embed_local_def)
qed

lemma component_unitary_ok:
  assumes "wf_component c" "valid_component M c"
  shows "is_unitary M (component_unitary M c)"
proof (cases "op c")
  case (Unitary2x2 L)
  with assms obtain m1 m2 where ms: "modes c = [m1, m2]"
    by (auto simp: wf_component_def length_Suc_conv numeral_2_eq_2)
  with assms Unitary2x2 show ?thesis
    by (simp add: wf_component_def valid_component_def component_unitary_def embed_unitary_2)
next
  case (Phase phi)
  with assms obtain m where ms: "modes c = [m]"
    by (auto simp: wf_component_def length_Suc_conv)
  with assms Phase show ?thesis
    using embed_unitary_1 [of m M "[[cis phi]]"]
    by (simp add: valid_component_def component_unitary_def)
qed

lemma foldl_unitary:
  assumes "is_unitary M U" "list_all wf_component cs" "list_all (valid_component M) cs"
  shows "is_unitary M (foldl (\<lambda>U c. mat_mul U (component_unitary M c)) U cs)"
  using assms
  by (induction cs arbitrary: U) (simp_all add: is_unitary_mul component_unitary_ok)

lemma unitary_is_unitary:
  "wf_network net \<Longrightarrow> valid_network net \<Longrightarrow> is_unitary (modeCount net) (unitary net)"
  by (simp add: unitary_def wf_network_def valid_network_def foldl_unitary is_unitary_identity)

lemma phase_unitary: "is_unitary 1 [[cis phi]]"
  by (simp add: is_unitary_iff rows_orthonormal_def wf_mat_def cis_cnj cis_mult)

lemma beam_splitter_unitary:
  assumes "0 \<le> R" "R \<le> 1"
  shows "is_unitary 2 (local_matrix (beam_splitter R phi))"
proof -
  define x where "x = complex_of_real (sqrt R)"
  define y where "y = complex_of_real (sqrt (1 - R))"
  define z where "z = cis phi"
  have two: "(\<Sum>k<2. f k) = f 0 + f 1" for f :: "nat \<Rightarrow> complex"
    by (simp add: numeral_2_eq_2)
  have all2: "(\<forall>i<2. P i) \<longleftrightarrow> P 0 \<and> P 1" for P :: "nat \<Rightarrow> bool"
    by (auto simp: numeral_2_eq_2 less_Suc_eq)
  have z: "z * cnj z = 1"
    by (simp add: z_def cis_cnj cis_mult)
  have cx: "cnj x = x" and cy: "cnj y = y"
    by (simp_all add: x_def y_def)
  have s: "x * x + y * y = 1"
    using assms by (simp add: x_def y_def flip: of_real_mult of_real_add)
  have r00: "x * cnj x + \<i> * y * cnj (\<i> * y) = 1"
    using s by (simp add: cx cy algebra_simps)
  have r01: "x * cnj (\<i> * y * z) + \<i> * y * cnj (x * z) = 0"
    by (simp add: cx cy algebra_simps)
  have r10: "\<i> * y * z * cnj x + x * z * cnj (\<i> * y) = 0"
    by (simp add: cx cy algebra_simps)
  have r11: "\<i> * y * z * cnj (\<i> * y * z) + x * z * cnj (x * z) = 1"
  proof -
    have "\<i> * y * z * cnj (\<i> * y * z) + x * z * cnj (x * z) = (x * x + y * y) * (z * cnj z)"
      by (simp add: cx cy algebra_simps)
    then show ?thesis by (simp add: s z)
  qed
  show ?thesis
    using r00 r01 r10 r11
    by (simp add: is_unitary_iff rows_orthonormal_def wf_mat_def two all2 beam_splitter_def
        x_def y_def z_def)
qed


subsection \<open>The entries of an embedded component\<close>

lemma mode_index_None: "mode_index ms i = None \<longleftrightarrow> i \<notin> set ms"
  by (induction ms) auto

lemma mode_index_nth:
  "distinct ms \<Longrightarrow> a < length ms \<Longrightarrow> mode_index ms (ms ! a) = Some a"
proof (induction ms arbitrary: a)
  case Nil
  then show ?case by simp
next
  case (Cons m ms)
  show ?case
  proof (cases a)
    case 0
    then show ?thesis by simp
  next
    case (Suc a')
    with Cons.prems have "a' < length ms" "ms ! a' \<in> set ms" "m \<notin> set ms" "distinct ms"
      by simp_all
    with Cons.IH [of a'] Suc show ?thesis by auto
  qed
qed

lemma embed_local_modes:
  assumes "distinct ms" "a < length ms" "b < length ms" "ms ! a < M" "ms ! b < M"
  shows "embed_local M ms L ! (ms ! a) ! (ms ! b) = L ! a ! b"
  using assms by (simp add: embed_local_def mode_index_nth)

lemma embed_local_other:
  assumes "i < M" "j < M" "i \<notin> set ms \<or> j \<notin> set ms"
  shows "embed_local M ms L ! i ! j = (if i = j then 1 else 0)"
proof (cases "mode_index ms i")
  case None
  with assms show ?thesis by (simp add: embed_local_def)
next
  case (Some a)
  then have "i \<in> set ms"
    using mode_index_None [of ms i] by auto
  with assms have "j \<notin> set ms" "i \<noteq> j" by auto
  then have "mode_index ms j = None" by (simp add: mode_index_None)
  with Some assms \<open>i \<noteq> j\<close> show ?thesis by (simp add: embed_local_def)
qed

lemma wf_component_unitary: "wf_mat M M (component_unitary M c)"
  by (simp add: component_unitary_def embed_local_def)

lemma unitary_snoc:
  "unitary (net\<lparr>components := components net @ [c]\<rparr>) =
     mat_mul (unitary net) (component_unitary (modeCount net) c)"
  by (simp add: unitary_def)

text \<open>
  Claim C4. For every valid network over \<open>M\<close> modes (every component's local matrix
  unitary, all mode indices in \<open>[0, M)\<close>; each component bound, as the data model has it,
  to an ordered subset of as many modes as its arity), \<^verbatim>\<open>unitary()\<close> returns an
  \<open>M\<close>-by-\<open>M\<close> matrix \<open>U\<close> with \<open>U * U\<^sup>\<dagger> = I\<close>: the rows of \<open>U\<close> are orthonormal, exactly and
  therefore within the tolerance \<open>10\<^sup>-\<^sup>9\<close> in every entry. \<open>U\<close> is the ordered product of
  the embedded local unitaries: the identity for no component; each further component
  multiplies the product of the earlier ones on the right, entry \<open>(i, j)\<close> of the new product
  being \<open>\<Sum>\<^sub>k U\<^sub>i\<^sub>k E\<^sub>k\<^sub>j\<close>; and the embedded matrix \<open>E\<close> of a component carries the local
  entry \<open>L\<^sub>a\<^sub>b\<close> at the position of its \<open>a\<close>-th and \<open>b\<close>-th mode and agrees with the identity
  wherever the row or the column is not one of its modes.
\<close>

theorem unitary_of_valid_network:
  assumes "wf_network net" and "valid_network net"
    and "M = modeCount net" and "U = unitary net"
  shows "(length U = M \<and> (\<forall>row\<in>set U. length row = M)) \<and>
         mat_mul U (dagger U) = identity_mat M \<and>
         (\<forall>i<M. \<forall>j<M. (\<Sum>k<M. U ! i ! k * cnj (U ! j ! k)) = (if i = j then 1 else 0)) \<and>
         (\<forall>i<M. \<forall>j<M.
            cmod (mat_mul U (dagger U) ! i ! j - (if i = j then 1 else 0)) \<le> 1 / 10 ^ 9) \<and>
         (\<forall>i<M. \<forall>j<M.
            unitary (net\<lparr>components := []\<rparr>) ! i ! j = (if i = j then 1 else 0)) \<and>
         (\<forall>c. \<forall>i<M. \<forall>j<M.
            unitary (net\<lparr>components := components net @ [c]\<rparr>) ! i ! j =
              (\<Sum>k<M. U ! i ! k * component_unitary M c ! k ! j)) \<and>
         (\<forall>c. wf_component c \<and> valid_component M c \<longrightarrow>
            (\<forall>a<length (modes c). \<forall>b<length (modes c).
               component_unitary M c ! (modes c ! a) ! (modes c ! b) =
                 local_matrix (op c) ! a ! b) \<and>
            (\<forall>i<M. \<forall>j<M. i \<notin> set (modes c) \<or> j \<notin> set (modes c) \<longrightarrow>
               component_unitary M c ! i ! j = (if i = j then 1 else 0)))"
proof -
  from assms have u: "is_unitary M U"
    by (simp add: unitary_is_unitary)
  then have wf: "wf_mat M M U" and eq: "mat_mul U (dagger U) = identity_mat M"
    by (simp_all add: is_unitary_def)
  from u have ortho: "rows_orthonormal M U"
    by (simp add: is_unitary_iff)
  have len: "length U = M" and rowlen: "\<forall>row\<in>set U. length row = M"
    using wf by (simp_all add: wf_mat_def list_all_iff)
  have rows: "\<forall>i<M. \<forall>j<M. (\<Sum>k<M. U ! i ! k * cnj (U ! j ! k)) = (if i = j then 1 else 0)"
    using ortho by (simp add: rows_orthonormal_def)
  have close: "\<forall>i<M. \<forall>j<M.
      cmod (mat_mul U (dagger U) ! i ! j - (if i = j then 1 else 0)) \<le> 1 / 10 ^ 9"
    unfolding eq by (simp add: identity_mat_def)
  have empty: "\<forall>i<M. \<forall>j<M.
      unitary (net\<lparr>components := []\<rparr>) ! i ! j = (if i = j then 1 else 0)"
    using assms(3) by (simp add: unitary_def identity_mat_def)
  have snoc: "\<forall>c. \<forall>i<M. \<forall>j<M.
      unitary (net\<lparr>components := components net @ [c]\<rparr>) ! i ! j =
        (\<Sum>k<M. U ! i ! k * component_unitary M c ! k ! j)"
    using wf by (simp add: unitary_snoc assms(3,4) [symmetric] mat_mul_nth wf_component_unitary)
  have emb: "\<forall>c. wf_component c \<and> valid_component M c \<longrightarrow>
      (\<forall>a<length (modes c). \<forall>b<length (modes c).
         component_unitary M c ! (modes c ! a) ! (modes c ! b) = local_matrix (op c) ! a ! b) \<and>
      (\<forall>i<M. \<forall>j<M. i \<notin> set (modes c) \<or> j \<notin> set (modes c) \<longrightarrow>
         component_unitary M c ! i ! j = (if i = j then 1 else 0))"
  proof (intro allI impI conjI)
    fix c :: component and a b
    assume c: "wf_component c \<and> valid_component M c"
      and a: "a < length (modes c)" and b: "b < length (modes c)"
    from c have "distinct (modes c)" "\<forall>m\<in>set (modes c). m < M"
      by (simp_all add: wf_component_def valid_component_def list_all_iff)
    with a b show "component_unitary M c ! (modes c ! a) ! (modes c ! b) =
        local_matrix (op c) ! a ! b"
      by (simp add: component_unitary_def embed_local_modes)
  next
    fix c :: component and i j
    assume "i < M" "j < M" "i \<notin> set (modes c) \<or> j \<notin> set (modes c)"
    then show "component_unitary M c ! i ! j = (if i = j then 1 else 0)"
      unfolding component_unitary_def by (rule embed_local_other)
  qed
  from len rowlen eq rows close empty snoc emb show ?thesis
    by (intro conjI)
qed

theorem unitary_of_valid_network_witness:
  "wf_network
     \<lparr>modeCount = 3,
      components =
        [\<lparr>modes = [0, 1], op = beam_splitter (1 / 2) pi\<rparr>,
         \<lparr>modes = [2], op = phase_shifter pi\<rparr>,
         \<lparr>modes = [1, 2], op = beam_splitter (2 / 3) 0\<rparr>]\<rparr> \<and>
   valid_network
     \<lparr>modeCount = 3,
      components =
        [\<lparr>modes = [0, 1], op = beam_splitter (1 / 2) pi\<rparr>,
         \<lparr>modes = [2], op = phase_shifter pi\<rparr>,
         \<lparr>modes = [1, 2], op = beam_splitter (2 / 3) 0\<rparr>]\<rparr> \<and>
   mat_mul
     (unitary
       \<lparr>modeCount = 3,
        components =
          [\<lparr>modes = [0, 1], op = beam_splitter (1 / 2) pi\<rparr>,
           \<lparr>modes = [2], op = phase_shifter pi\<rparr>,
           \<lparr>modes = [1, 2], op = beam_splitter (2 / 3) 0\<rparr>]\<rparr>)
     (dagger
       (unitary
         \<lparr>modeCount = 3,
          components =
            [\<lparr>modes = [0, 1], op = beam_splitter (1 / 2) pi\<rparr>,
             \<lparr>modes = [2], op = phase_shifter pi\<rparr>,
             \<lparr>modes = [1, 2], op = beam_splitter (2 / 3) 0\<rparr>]\<rparr>)) =
   identity_mat 3 \<and>
   component_unitary 3 \<lparr>modes = [1, 2], op = beam_splitter (2 / 3) 0\<rparr> ! 1 ! 2 =
     \<i> * complex_of_real (sqrt (1 - 2 / 3)) \<and>
   component_unitary 3 \<lparr>modes = [1, 2], op = beam_splitter (2 / 3) 0\<rparr> ! 0 ! 0 = 1"
proof -
  let ?c = "\<lparr>modes = [1, 2], op = beam_splitter (2 / 3) 0\<rparr>"
  let ?net = "\<lparr>modeCount = 3,
      components =
        [\<lparr>modes = [0, 1], op = beam_splitter (1 / 2) pi\<rparr>,
         \<lparr>modes = [2], op = phase_shifter pi\<rparr>, ?c]\<rparr>"
  have ar: "arity (beam_splitter R phi) = 2" for R phi
    by (simp add: beam_splitter_def)
  have w: "wf_network ?net"
    by (simp add: wf_network_def wf_component_def ar phase_shifter_def)
  have v: "valid_network ?net"
    using beam_splitter_unitary [of "1 / 2" pi] beam_splitter_unitary [of "2 / 3" 0]
      phase_unitary [of pi]
    by (simp add: valid_network_def valid_component_def ar phase_shifter_def)
  have m: "3 = modeCount ?net"
    by simp
  note t = unitary_of_valid_network [OF w v m refl]
  have eq: "mat_mul (unitary ?net) (dagger (unitary ?net)) = identity_mat 3"
    by (rule t [THEN conjunct2, THEN conjunct1])
  have emb: "\<forall>c. wf_component c \<and> valid_component 3 c \<longrightarrow>
      (\<forall>a<length (modes c). \<forall>b<length (modes c).
         component_unitary 3 c ! (modes c ! a) ! (modes c ! b) = local_matrix (op c) ! a ! b) \<and>
      (\<forall>i<3. \<forall>j<3. i \<notin> set (modes c) \<or> j \<notin> set (modes c) \<longrightarrow>
         component_unitary 3 c ! i ! j = (if i = j then 1 else 0))"
    by (rule t [THEN conjunct2, THEN conjunct2, THEN conjunct2, THEN conjunct2,
          THEN conjunct2, THEN conjunct2])
  have c: "wf_component ?c \<and> valid_component 3 ?c"
    using beam_splitter_unitary [of "2 / 3" 0]
    by (simp add: wf_component_def valid_component_def ar)
  from emb [rule_format, OF c]
  have loc: "\<forall>a<length (modes ?c). \<forall>b<length (modes ?c).
      component_unitary 3 ?c ! (modes ?c ! a) ! (modes ?c ! b) = local_matrix (op ?c) ! a ! b"
    and oth: "\<forall>i<3. \<forall>j<3. i \<notin> set (modes ?c) \<or> j \<notin> set (modes ?c) \<longrightarrow>
      component_unitary 3 ?c ! i ! j = (if i = j then 1 else 0)"
    by blast+
  from loc [rule_format, of 0 1]
  have e12: "component_unitary 3 ?c ! 1 ! 2 = \<i> * complex_of_real (sqrt (1 - 2 / 3))"
    by (simp add: beam_splitter_def)
  from oth [rule_format, of 0 0]
  have e00: "component_unitary 3 ?c ! 0 ! 0 = 1"
    by simp
  from w v eq e12 e00 show ?thesis
    by (intro conjI)
qed

end
